theory Spec2Isabelle
  imports Main
begin

section \<open>Values of the program\<close>

text \<open>
  Strings are lists of code units. A call of the linker can fail in two ways: with a
  \<open>TypeError\<close> (a method is read from \<open>undefined\<close>), or with the rejection
  of the file search, which carries the reason the search gave.
\<close>

datatype error = TypeError | SearchFailure string

text \<open>
  The fields of a \<open>RegExpMatchArray\<close>: \<open>match[0]\<close>, \<open>match[1]\<close> and
  \<open>match.index\<close>. The linker reads \<open>match[1]!\<close> only.
\<close>

record RegExpMatchArray =
  whole :: string
  group1 :: string
  index :: nat

record position =
  line :: int
  colStart :: int
  colEnd :: int

record InertiaLink =
  templatePath :: "string option"
  position :: position

record AdonisProject =
  path :: string

record getLinks_options =
  fileContent :: string
  project :: AdonisProject
  pagesDirectory :: string

section \<open>The string and array methods the linker calls\<close>

definition newline :: char where
  "newline = CHR 0x0A"

definition dquote :: char where
  "dquote = CHR 0x22"

definition squote :: char where
  "squote = CHR 0x27"

text \<open>
  \<open>s.split(sep)\<close> for a separator of one character: the pieces between the
  separators; the empty string gives one empty piece.
\<close>

fun js_split :: "char \<Rightarrow> string \<Rightarrow> string list" where
  "js_split sep [] = [[]]"
| "js_split sep (c # cs) =
     (if c = sep then [] # js_split sep cs
      else (case js_split sep cs of
              [] \<Rightarrow> [[c]]
            | l # ls \<Rightarrow> (c # l) # ls))"

fun js_startsWith :: "string \<Rightarrow> string \<Rightarrow> bool" where
  "js_startsWith s [] = True"
| "js_startsWith [] (p # ps) = False"
| "js_startsWith (c # cs) (p # ps) = (c = p \<and> js_startsWith cs ps)"

text \<open>
  \<open>s.includes(p)\<close>: \<open>p\<close> occurs in \<open>s\<close> as a contiguous run.
\<close>

fun js_includes :: "string \<Rightarrow> string \<Rightarrow> bool" where
  "js_includes [] p = (p = [])"
| "js_includes (c # cs) p = (js_startsWith (c # cs) p \<or> js_includes cs p)"

text \<open>
  \<open>s.indexOf(p)\<close>: the first offset at which \<open>p\<close> occurs, \<open>-1\<close> when there is none.
\<close>

fun js_indexOf :: "string \<Rightarrow> string \<Rightarrow> int" where
  "js_indexOf [] p = (if p = [] then 0 else - 1)"
| "js_indexOf (c # cs) p =
     (if js_startsWith (c # cs) p then 0
      else (let r = js_indexOf cs p in if r < 0 then - 1 else r + 1))"

text \<open>
  \<open>xs.findIndex(P)\<close>: the index of the first element satisfying \<open>P\<close>,
  \<open>-1\<close> when none does.
\<close>

fun js_findIndex :: "('a \<Rightarrow> bool) \<Rightarrow> 'a list \<Rightarrow> int" where
  "js_findIndex P [] = - 1"
| "js_findIndex P (x # xs) =
     (if P x then 0
      else (let r = js_findIndex P xs in if r < 0 then - 1 else r + 1))"

text \<open>
  \<open>xs[i]\<close>: \<open>None\<close> stands for \<open>undefined\<close>, which is what an index
  outside the array reads.
\<close>

definition js_at :: "'a list \<Rightarrow> int \<Rightarrow> 'a option" where
  "js_at xs i = (if 0 \<le> i \<and> i < int (length xs) then Some (xs ! nat i) else None)"

text \<open>
  \<open>s.replace(/\"|'/g, '')\<close> and \<open>s.replace(/\./g, '/')\<close>.
\<close>

definition removeQuotes :: "string \<Rightarrow> string" where
  "removeQuotes s = filter (\<lambda>c. c \<noteq> dquote \<and> c \<noteq> squote) s"

definition dotsToSlashes :: "string \<Rightarrow> string" where
  "dotsToSlashes s = map (\<lambda>c. if c = CHR ''.'' then CHR ''/'' else c) s"

text \<open>
  \<open>xs.map(f)\<close> for a callback that may throw: the first throw ends the call.
\<close>

fun js_map :: "('a \<Rightarrow> error + 'b) \<Rightarrow> 'a list \<Rightarrow> error + 'b list" where
  "js_map f [] = Inr []"
| "js_map f (x # xs) =
     (case f x of
        Inl e \<Rightarrow> Inl e
      | Inr y \<Rightarrow> (case js_map f xs of Inl e \<Rightarrow> Inl e | Inr ys \<Rightarrow> Inr (y # ys)))"

section \<open>The position mapper\<close>

text \<open>
  \<open>InertiaLinker.#matchIndexToPosition\<close>. When no line includes the capture,
  \<open>findIndex\<close> gives \<open>-1\<close>, \<open>lines[-1]\<close> is \<open>undefined\<close>, and reading
  \<open>indexOf\<close> from it throws a \<open>TypeError\<close>.
\<close>

definition matchIndexToPosition :: "string \<Rightarrow> RegExpMatchArray \<Rightarrow> error + position" where
  "matchIndexToPosition content m =
     (let lines = js_split newline content;
          ln = js_findIndex (\<lambda>l. js_includes l (group1 m)) lines
      in case js_at lines ln of
           None \<Rightarrow> Inl TypeError
         | Some l \<Rightarrow>
             (let cs = js_indexOf l (group1 m);
                  ce = cs + int (length (group1 m))
              in Inr \<lparr>line = ln, colStart = cs, colEnd = ce\<rparr>))"

section \<open>Resolution of one match\<close>

text \<open>
  What \<open>getLinks\<close> takes from outside the sources at hand: the matches of
  \<open>fileContent.matchAll(inertiaRegex)\<close> (the pattern is declared in
  \<open>utilities/regexes\<close>), \<open>join\<close> of \<open>path\<close>, \<open>slash\<close>, and the glob
  search \<open>fg\<close> of \<open>fast-glob\<close>, which either rejects or gives the entries it
  found, in the order it enumerates them. The search reads the file system and does not
  change it, so one function stands for one state of the file system.
\<close>

record fg_options =
  onlyFiles :: bool
  caseSensitiveMatch :: bool
  cwd :: string

record externals =
  matchAll :: "string \<Rightarrow> RegExpMatchArray list"
  path_join :: "string list \<Rightarrow> string"
  slash :: "string \<Rightarrow> string"
  fg :: "string \<Rightarrow> fg_options \<Rightarrow> error + string list"

text \<open>
  The body of the callback \<open>async (match) => ...\<close>, line by line. A rejected search
  throws at the \<open>await\<close>, before the position is computed.
\<close>

definition fileName :: "RegExpMatchArray \<Rightarrow> string" where
  "fileName m = dotsToSlashes (removeQuotes (group1 m))"

definition fullName :: "externals \<Rightarrow> getLinks_options \<Rightarrow> RegExpMatchArray \<Rightarrow> string" where
  "fullName ext options m =
     path_join ext [path (project options), pagesDirectory options, fileName m @ ''.vue'']"

definition pattern :: "externals \<Rightarrow> getLinks_options \<Rightarrow> RegExpMatchArray \<Rightarrow> string" where
  "pattern ext options m = slash ext (fullName ext options m)"

definition searchOptions :: "externals \<Rightarrow> getLinks_options \<Rightarrow> fg_options" where
  "searchOptions ext options =
     \<lparr>onlyFiles = True, caseSensitiveMatch = False, cwd = slash ext (path (project options))\<rparr>"

definition linkOfMatch ::
  "externals \<Rightarrow> getLinks_options \<Rightarrow> RegExpMatchArray \<Rightarrow> error + InertiaLink" where
  "linkOfMatch ext options m =
     (case fg ext (pattern ext options m) (searchOptions ext options) of
        Inl e \<Rightarrow> Inl e
      | Inr files \<Rightarrow>
          (case matchIndexToPosition (fileContent options) m of
             Inl e \<Rightarrow> Inl e
           | Inr pos \<Rightarrow>
               (case files of
                  [] \<Rightarrow> Inr \<lparr>templatePath = None, position = pos\<rparr>
                | f # _ \<Rightarrow> Inr \<lparr>templatePath = Some (slash ext f), position = pos\<rparr>)))"

section \<open>Gathering the results\<close>

text \<open>
  \<open>Promise.all\<close>. It holds an array of values, one slot for each promise and all
  \<open>undefined\<close> at first, and the number of promises not yet fulfilled. A promise that
  fulfils stores its value in the slot of its own index; the last one to do so fulfils the
  whole with the array. The first promise to reject rejects the whole, and a settled
  whole no longer changes. The schedule lists the indices of the promises in the order
  in which they settle.
\<close>

datatype 'a promise =
    Pending "'a option list" nat
  | Fulfilled "'a option list"
  | Rejected error

fun settle :: "(error + 'a) list \<Rightarrow> 'a promise \<Rightarrow> nat \<Rightarrow> 'a promise" where
  "settle outcomes (Pending values remaining) i =
     (if length outcomes \<le> i then Pending values remaining
      else (case outcomes ! i of
              Inl e \<Rightarrow> Rejected e
            | Inr v \<Rightarrow>
                if remaining - 1 = 0 then Fulfilled (values[i := Some v])
                else Pending (values[i := Some v]) (remaining - 1)))"
| "settle outcomes (Fulfilled values) i = Fulfilled values"
| "settle outcomes (Rejected e) i = Rejected e"

definition Promise_all :: "(error + 'a) list \<Rightarrow> nat list \<Rightarrow> 'a promise" where
  "Promise_all outcomes schedule =
     foldl (settle outcomes)
       (if outcomes = [] then Fulfilled []
        else Pending (replicate (length outcomes) None) (length outcomes))
       schedule"

text \<open>
  A completion order of \<open>n\<close> promises: each of them settles, once.
\<close>

definition completionOrder :: "nat \<Rightarrow> nat list \<Rightarrow> bool" where
  "completionOrder n schedule \<longleftrightarrow> distinct schedule \<and> set schedule = {..<n}"

text \<open>
  \<open>result.filter(Boolean)\<close> drops the falsy entries. An object is truthy;
  \<open>undefined\<close> is not.
\<close>

fun filterBoolean :: "'a option list \<Rightarrow> 'a list" where
  "filterBoolean [] = []"
| "filterBoolean (None # xs) = filterBoolean xs"
| "filterBoolean (Some v # xs) = v # filterBoolean xs"

text \<open>
  \<open>InertiaLinker.getLinks\<close>. \<open>None\<close> means that the awaited promise never
  settles, which needs a schedule that leaves a promise out.
\<close>

definition getLinks ::
  "externals \<Rightarrow> nat list \<Rightarrow> getLinks_options \<Rightarrow> (error + InertiaLink list) option" where
  "getLinks ext schedule options =
     (let matchesArray = matchAll ext (fileContent options);
          promises = map (linkOfMatch ext options) matchesArray
      in case Promise_all promises schedule of
           Pending values remaining \<Rightarrow> None
         | Rejected e \<Rightarrow> Some (Inl e)
         | Fulfilled result \<Rightarrow> Some (Inr (filterBoolean result)))"

section \<open>The caller: DocumentLinkFactory\<close>

text \<open>
  \<open>Position\<close>, \<open>Range\<close> and \<open>DocumentLink\<close> of the editor are taken as plain
  data. \<open>RouteControllerLink\<close> calls \<open>super(range)\<close> only, so its target stays
  \<open>undefined\<close>. The function \<open>fileUri\<close> stands for
  \<open>Uri.parse(pathToFileURL(p).href)\<close>; \<open>pathToFileURL\<close> throws a
  \<open>TypeError\<close> on \<open>null\<close>. \<open>ViewLink\<close> is declared in \<open>types/linkers\<close>;
  the factory reads the two fields of an \<open>InertiaLink\<close> from it.
\<close>

record Position =
  pos_line :: int
  pos_character :: int

record Range =
  range_start :: Position
  range_end :: Position

record 'u DocumentLink =
  link_range :: Range
  link_target :: "'u option"

record ('u, 'c) RouteControllerLink = "'u DocumentLink" +
  filePath :: 'u
  controller :: "'c option"

record 'c RouteLink =
  controllerPath :: "string option"
  route_controller :: "'c option"
  route_position :: position

definition rangeOf :: "position \<Rightarrow> Range" where
  "rangeOf p =
     \<lparr>range_start = \<lparr>pos_line = line p, pos_character = colStart p\<rparr>,
      range_end = \<lparr>pos_line = line p, pos_character = colEnd p\<rparr>\<rparr>"

definition fromViewLink :: "(string \<Rightarrow> 'u) \<Rightarrow> InertiaLink list \<Rightarrow> error + 'u DocumentLink list" where
  "fromViewLink fileUri links =
     js_map (\<lambda>link. case templatePath link of
                       None \<Rightarrow> Inl TypeError
                     | Some p \<Rightarrow>
                         Inr \<lparr>link_range = rangeOf (position link), link_target = Some (fileUri p)\<rparr>)
       (filter (\<lambda>link. templatePath link \<noteq> None) links)"

definition fromControllerLink ::
  "(string \<Rightarrow> 'u) \<Rightarrow> 'c RouteLink list \<Rightarrow> error + ('u, 'c) RouteControllerLink list" where
  "fromControllerLink fileUri links =
     js_map (\<lambda>link. case controllerPath link of
                       None \<Rightarrow> Inl TypeError
                     | Some p \<Rightarrow>
                         Inr \<lparr>link_range = rangeOf (route_position link), link_target = None,
                              filePath = fileUri p, controller = route_controller link\<rparr>)
       (filter (\<lambda>link. controllerPath link \<noteq> None) links)"

section \<open>Notions used to state the properties\<close>

text \<open>
  The text of a line between two columns, as \<open>line.slice(a, b)\<close> gives it for
  \<open>0 \<le> a \<le> b\<close>.
\<close>

definition slice :: "string \<Rightarrow> int \<Rightarrow> int \<Rightarrow> string" where
  "slice s a b = take (nat (b - a)) (drop (nat a) s)"

text \<open>
  How often a string occurs in a text: the number of offsets at which it starts.
\<close>

definition occurrences :: "string \<Rightarrow> string \<Rightarrow> nat" where
  "occurrences content p =
     length (filter (\<lambda>k. js_startsWith (drop k content) p) [0..<Suc (length content)])"

text \<open>
  The offset in the text of a column of a line: every earlier line and its newline come before it.
\<close>

definition offsetOf :: "string list \<Rightarrow> nat \<Rightarrow> nat \<Rightarrow> nat" where
  "offsetOf lines ln col = sum_list (map (\<lambda>l. Suc (length l)) (take ln lines)) + col"

text \<open>
  The specification's words for the resolution of a view reference: strip the enclosing
  quote characters, replace every dot with the path separator, join project root, base
  directory and the converted reference with the extension appended, search files only
  and without regard to case from the project root, and take the first entry in
  forward-slash form, or nothing.
\<close>

definition isQuote :: "char \<Rightarrow> bool" where
  "isQuote c \<longleftrightarrow> c = dquote \<or> c = squote"

definition stripEnclosingQuotes :: "string \<Rightarrow> string" where
  "stripEnclosingQuotes s = rev (dropWhile isQuote (rev (dropWhile isQuote s)))"

definition spec_convert :: "string \<Rightarrow> string" where
  "spec_convert capture =
     map (\<lambda>c. if c = CHR ''.'' then CHR ''/'' else c) (stripEnclosingQuotes capture)"

definition spec_resolve ::
  "externals \<Rightarrow> string \<Rightarrow> string \<Rightarrow> string \<Rightarrow> string \<Rightarrow> error + string option" where
  "spec_resolve ext capture projectRoot baseDir extension =
     (case fg ext
             (slash ext (path_join ext
                [projectRoot, baseDir, spec_convert capture @ ''.'' @ extension]))
             \<lparr>onlyFiles = True, caseSensitiveMatch = False, cwd = slash ext projectRoot\<rparr> of
        Inl e \<Rightarrow> Inl e
      | Inr [] \<Rightarrow> Inr None
      | Inr (f # _) \<Rightarrow> Inr (Some (slash ext f)))"

text \<open>
  The values array after the promises in \<open>S\<close> have fulfilled.
\<close>

definition filled :: "(error + 'a) list \<Rightarrow> nat set \<Rightarrow> 'a option list" where
  "filled outcomes S =
     map (\<lambda>i. if i \<in> S then (case outcomes ! i of Inr v \<Rightarrow> Some v | Inl e \<Rightarrow> None) else None)
       [0..<length outcomes]"

section \<open>A small project to run the linker on\<close>

text \<open>
  A project at \<open>/proj\<close> with the files \<open>pages/users/Show.vue\<close>,
  \<open>pages/Users/show.vue\<close> and \<open>views/welcome.edge\<close>, and a directory
  \<open>pages/locked\<close> that the search may not read. \<open>fixture_join\<close> is
  \<open>path.join\<close> on clean segments, \<open>fixture_slash\<close> turns backslashes into
  slashes, and \<open>fixture_matchAll\<close> lists the references of each text below.
\<close>

definition line_show :: string where
  "line_show = ''render('' @ [squote] @ ''users.show'' @ [squote] @ '')''"

definition line_missing :: string where
  "line_missing = ''render('' @ [squote] @ ''missing.page'' @ [squote] @ '')''"

definition line_locked :: string where
  "line_locked = ''render('' @ [squote] @ ''locked.area'' @ [squote] @ '')''"

definition line_welcome :: string where
  "line_welcome = ''render('' @ [squote] @ ''welcome'' @ [squote] @ '')''"

definition text_two :: string where
  "text_two = line_show @ [newline] @ line_missing"

definition text_three :: string where
  "text_three = line_show @ [newline] @ line_missing @ [newline] @ line_locked"

definition text_twice :: string where
  "text_twice = line_show @ [newline] @ line_show"

definition text_broken :: string where
  "text_broken = ''render('' @ [squote] @ ''a'' @ [newline] @ ''b'' @ [squote] @ '')''"

definition m_show :: RegExpMatchArray where
  "m_show = \<lparr>whole = line_show, group1 = ''users.show'', index = 0\<rparr>"

definition m_show_again :: RegExpMatchArray where
  "m_show_again = \<lparr>whole = line_show, group1 = ''users.show'', index = 21\<rparr>"

definition m_missing :: RegExpMatchArray where
  "m_missing = \<lparr>whole = line_missing, group1 = ''missing.page'', index = 21\<rparr>"

definition m_locked :: RegExpMatchArray where
  "m_locked = \<lparr>whole = line_locked, group1 = ''locked.area'', index = 44\<rparr>"

definition m_welcome :: RegExpMatchArray where
  "m_welcome = \<lparr>whole = line_welcome, group1 = ''welcome'', index = 0\<rparr>"

definition m_broken :: RegExpMatchArray where
  "m_broken = \<lparr>whole = text_broken, group1 = ''a'' @ [newline] @ ''b'', index = 0\<rparr>"

definition fixture_join :: "string list \<Rightarrow> string" where
  "fixture_join parts = foldr (\<lambda>a b. if b = [] then a else a @ ''/'' @ b) parts []"

definition fixture_slash :: "string \<Rightarrow> string" where
  "fixture_slash s = map (\<lambda>c. if c = CHR 0x5C then CHR ''/'' else c) s"

definition fixture_matchAll :: "string \<Rightarrow> RegExpMatchArray list" where
  "fixture_matchAll content =
     (if content = text_two then [m_show, m_missing]
      else if content = text_three then [m_show, m_missing, m_locked]
      else if content = text_twice then [m_show, m_show_again]
      else if content = line_welcome then [m_welcome]
      else if content = text_broken then [m_broken]
      else [])"

definition fixture_fg :: "string \<Rightarrow> fg_options \<Rightarrow> error + string list" where
  "fixture_fg pat opts =
     (if pat = ''/proj/pages/locked/area.vue'' then Inl (SearchFailure ''EACCES'')
      else if pat = ''/proj/pages/users/show.vue'' \<and> \<not> caseSensitiveMatch opts
        then Inr [''/proj/pages/users/Show.vue'', ''/proj/pages/Users/show.vue'']
      else if pat = ''/proj/views/welcome.edge'' then Inr [''/proj/views/welcome.edge'']
      else Inr [])"

definition fixture :: externals where
  "fixture = \<lparr>matchAll = fixture_matchAll, path_join = fixture_join, slash = fixture_slash,
               fg = fixture_fg\<rparr>"

definition options_for :: "string \<Rightarrow> string \<Rightarrow> getLinks_options" where
  "options_for content dir = \<lparr>fileContent = content, project = \<lparr>path = ''/proj''\<rparr>, pagesDirectory = dir\<rparr>"

definition link_show :: InertiaLink where
  "link_show = \<lparr>templatePath = Some ''/proj/pages/users/Show.vue'',
                 position = \<lparr>line = 0, colStart = 8, colEnd = 18\<rparr>\<rparr>"

definition link_missing :: InertiaLink where
  "link_missing = \<lparr>templatePath = None, position = \<lparr>line = 1, colStart = 8, colEnd = 20\<rparr>\<rparr>"

text \<open>
  More matches: a capture that carries its quotes, a capture with a quote inside, a
  capture with two dots, and a capture that runs over a newline.
\<close>

definition m_show_quoted :: RegExpMatchArray where
  "m_show_quoted = \<lparr>whole = line_show, group1 = [squote] @ ''users.show'' @ [squote], index = 0\<rparr>"

definition line_inner :: string where
  "line_inner = ''render('' @ [squote] @ ''users'' @ [squote] @ ''.show'' @ [squote] @ '')''"

definition m_inner :: RegExpMatchArray where
  "m_inner = \<lparr>whole = line_inner, group1 = ''users'' @ [squote] @ ''.show'', index = 0\<rparr>"

definition m_nested :: RegExpMatchArray where
  "m_nested = \<lparr>whole = ''admin.users.index'', group1 = ''admin.users.index'', index = 0\<rparr>"

definition text_wrapped :: string where
  "text_wrapped = ''render('' @ [squote] @ ''users.'' @ [newline] @ ''show'' @ [squote] @ '')''"

definition m_wrapped :: RegExpMatchArray where
  "m_wrapped = \<lparr>whole = text_wrapped, group1 = ''users.'' @ [newline] @ ''show'', index = 0\<rparr>"

lemmas fixture_defs = line_show_def line_missing_def line_locked_def line_welcome_def
  text_two_def text_three_def text_twice_def text_broken_def
  m_show_def m_show_again_def m_missing_def m_locked_def m_welcome_def m_broken_def
  fixture_join_def fixture_slash_def fixture_matchAll_def fixture_fg_def fixture_def options_for_def
  link_show_def link_missing_def newline_def squote_def dquote_def

lemmas linker_defs = getLinks_def Promise_all_def linkOfMatch_def pattern_def fullName_def fileName_def
  searchOptions_def matchIndexToPosition_def js_at_def removeQuotes_def dotsToSlashes_def

section \<open>Facts about the string and array methods\<close>

lemma js_startsWith_iff: "js_startsWith s p \<longleftrightarrow> take (length p) s = p \<and> length p \<le> length s"
  by (induction s p rule: js_startsWith.induct) auto

lemma js_startsWith_append: "js_startsWith s p \<Longrightarrow> js_startsWith (s @ r) p"
  by (auto simp: js_startsWith_iff)

lemma js_startsWith_includes: "js_startsWith s p \<Longrightarrow> js_includes s p"
  by (cases s) (auto elim: js_startsWith.elims)

lemma js_includes_iff:
  "js_includes s p \<longleftrightarrow> (\<exists>k \<le> length s. js_startsWith (drop k s) p)"
proof (induction s)
  case Nil
  show ?case by (cases p) auto
next
  case (Cons c cs)
  show ?case
  proof
    assume "js_includes (c # cs) p"
    then consider "js_startsWith (c # cs) p" | "js_includes cs p" by auto
    then show "\<exists>k \<le> length (c # cs). js_startsWith (drop k (c # cs)) p"
    proof cases
      case 1
      then have "js_startsWith (drop 0 (c # cs)) p" by simp
      then show ?thesis by blast
    next
      case 2
      with Cons obtain k where "k \<le> length cs" "js_startsWith (drop k cs) p" by auto
      then have "Suc k \<le> length (c # cs)" "js_startsWith (drop (Suc k) (c # cs)) p" by auto
      then show ?thesis by blast
    qed
  next
    assume "\<exists>k \<le> length (c # cs). js_startsWith (drop k (c # cs)) p"
    then obtain k where k: "k \<le> length (c # cs)" "js_startsWith (drop k (c # cs)) p" by auto
    show "js_includes (c # cs) p"
    proof (cases k)
      case 0
      with k show ?thesis by simp
    next
      case (Suc k')
      with k have "k' \<le> length cs" "js_startsWith (drop k' cs) p" by auto
      with Cons have "js_includes cs p" by auto
      then show ?thesis by simp
    qed
  qed
qed

lemma js_split_nonempty: "js_split sep s \<noteq> []"
  by (induction s) (auto split: list.splits)

lemma js_startsWith_first_piece:
  "sep \<notin> set p \<Longrightarrow> js_startsWith s p \<Longrightarrow> js_startsWith (hd (js_split sep s)) p"
proof (induction s p rule: js_startsWith.induct)
  case (1 s)
  show ?case by simp
next
  case (2 p ps)
  then show ?case by simp
next
  case (3 c cs p ps)
  then show ?case by (auto split: list.splits simp: js_split_nonempty)
qed

lemma js_includes_piece:
  "sep \<notin> set p \<Longrightarrow> js_includes s p \<Longrightarrow> \<exists>l \<in> set (js_split sep s). js_includes l p"
proof (induction s)
  case Nil
  then show ?case by simp
next
  case (Cons c cs)
  from Cons.prems(2) consider "js_startsWith (c # cs) p" | "js_includes cs p" by auto
  then show ?case
  proof cases
    case 1
    with Cons.prems(1) have "js_startsWith (hd (js_split sep (c # cs))) p"
      by (rule js_startsWith_first_piece)
    then have "js_includes (hd (js_split sep (c # cs))) p" by (rule js_startsWith_includes)
    moreover have "hd (js_split sep (c # cs)) \<in> set (js_split sep (c # cs))"
      using js_split_nonempty [of sep "c # cs"] by (simp del: js_split.simps)
    ultimately show ?thesis by blast
  next
    case 2
    with Cons obtain l where l: "l \<in> set (js_split sep cs)" "js_includes l p" by auto
    obtain l0 ls where sp: "js_split sep cs = l0 # ls"
      using js_split_nonempty [of sep cs] by (cases "js_split sep cs") auto
    show ?thesis
    proof (cases "c = sep")
      case True
      with l show ?thesis by auto
    next
      case False
      show ?thesis
      proof (cases "l = l0")
        case True
        with l have "js_includes (c # l0) p" by simp
        with False sp show ?thesis by simp
      next
        case False
        with l sp have "l \<in> set ls" by simp
        with l sp \<open>c \<noteq> sep\<close> show ?thesis by auto
      qed
    qed
  qed
qed

lemma js_findIndex_ge: "- 1 \<le> js_findIndex P xs"
  by (induction xs) (auto simp: Let_def)

lemma js_findIndex_none: "js_findIndex P xs = - 1 \<longleftrightarrow> (\<forall>x \<in> set xs. \<not> P x)"
proof (induction xs)
  case Nil
  show ?case by simp
next
  case (Cons x xs)
  have "- 1 \<le> js_findIndex P xs" by (rule js_findIndex_ge)
  with Cons show ?case by (auto simp: Let_def)
qed

lemma js_findIndex_lt: "js_findIndex P xs < int (length xs)"
  by (induction xs) (auto simp: Let_def)

lemma js_findIndex_first:
  "0 \<le> js_findIndex P xs \<Longrightarrow>
     P (xs ! nat (js_findIndex P xs)) \<and> (\<forall>k < nat (js_findIndex P xs). \<not> P (xs ! k))"
proof (induction xs)
  case Nil
  then show ?case by simp
next
  case (Cons x xs)
  show ?case
  proof (cases "P x")
    case True
    then show ?thesis by simp
  next
    case False
    with Cons.prems have r: "0 \<le> js_findIndex P xs"
      by (auto simp: Let_def split: if_splits)
    with Cons.IH have ih: "P (xs ! nat (js_findIndex P xs))"
      "\<forall>k < nat (js_findIndex P xs). \<not> P (xs ! k)" by auto
    from r have n: "nat (js_findIndex P xs + 1) = Suc (nat (js_findIndex P xs))" by simp
    show ?thesis using False r ih n
      by (auto simp: Let_def nth_Cons split: nat.splits)
  qed
qed

lemma js_indexOf_ge: "- 1 \<le> js_indexOf s p"
  by (induction s) (auto simp: Let_def)

lemma js_indexOf_le: "js_indexOf s p \<le> int (length s)"
  by (induction s) (auto simp: Let_def)

lemma js_indexOf_includes: "0 \<le> js_indexOf s p \<longleftrightarrow> js_includes s p"
proof (induction s)
  case Nil
  show ?case by simp
next
  case (Cons c cs)
  have "- 1 \<le> js_indexOf cs p" by (rule js_indexOf_ge)
  with Cons show ?case by (auto simp: Let_def)
qed

lemma js_indexOf_at:
  "0 \<le> js_indexOf s p \<Longrightarrow> js_startsWith (drop (nat (js_indexOf s p)) s) p"
proof (induction s)
  case Nil
  then show ?case by (auto split: if_splits)
next
  case (Cons c cs)
  show ?case
  proof (cases "js_startsWith (c # cs) p")
    case True
    then show ?thesis by simp
  next
    case False
    with Cons.prems have r: "0 \<le> js_indexOf cs p"
      by (auto simp: Let_def split: if_splits)
    then have n: "nat (js_indexOf cs p + 1) = Suc (nat (js_indexOf cs p))" by simp
    show ?thesis using False r n Cons.IH by (simp add: Let_def)
  qed
qed

lemma js_indexOf_slice:
  assumes "js_includes s p"
  shows "slice s (js_indexOf s p) (js_indexOf s p + int (length p)) = p"
proof -
  from assms have "0 \<le> js_indexOf s p" by (simp add: js_indexOf_includes)
  then have "js_startsWith (drop (nat (js_indexOf s p)) s) p" by (rule js_indexOf_at)
  then show ?thesis by (simp add: slice_def js_startsWith_iff)
qed

lemma occurrences_includes:
  assumes "0 < occurrences s p"
  shows "js_includes s p"
proof -
  from assms have "filter (\<lambda>k. js_startsWith (drop k s) p) [0..<Suc (length s)] \<noteq> []"
    unfolding occurrences_def by (simp del: upt_Suc)
  then obtain k where "k \<in> set [0..<Suc (length s)]" "js_startsWith (drop k s) p"
    unfolding filter_empty_conv by blast
  then have "k \<le> length s" "js_startsWith (drop k s) p" by auto
  then show ?thesis unfolding js_includes_iff by blast
qed

lemma occurrences_unique:
  assumes "occurrences t p = 1" "a \<le> length t" "js_startsWith (drop a t) p"
    "b \<le> length t" "js_startsWith (drop b t) p"
  shows "a = b"
proof -
  let ?P = "\<lambda>k. js_startsWith (drop k t) p"
  let ?F = "filter ?P [0..<Suc (length t)]"
  from assms have "a \<in> set ?F" "b \<in> set ?F"
    by (simp_all del: upt_Suc add: less_Suc_eq_le)
  moreover from assms(1) obtain x where "?F = [x]"
    unfolding occurrences_def by (cases ?F) (auto simp del: upt_Suc)
  ultimately show ?thesis by (simp del: upt_Suc)
qed

lemma offsetOf_0: "offsetOf ls 0 col = col"
  by (simp add: offsetOf_def)

lemma offsetOf_Suc: "offsetOf (l # ls) (Suc i) col = Suc (length l) + offsetOf ls i col"
  by (simp add: offsetOf_def)

lemma drop_offsetOf:
  "i < length (js_split sep t) \<Longrightarrow> col \<le> length (js_split sep t ! i) \<Longrightarrow>
     offsetOf (js_split sep t) i col \<le> length t \<and>
     (\<exists>rest. drop (offsetOf (js_split sep t) i col) t = drop col (js_split sep t ! i) @ rest)"
proof (induction t arbitrary: i col)
  case Nil
  then show ?case by (simp add: offsetOf_0)
next
  case (Cons c cs)
  obtain l ls where sp: "js_split sep cs = l # ls"
    using js_split_nonempty [of sep cs] by (cases "js_split sep cs") auto
  show ?case
  proof (cases "c = sep")
    case True
    then have s: "js_split sep (c # cs) = [] # js_split sep cs" by simp
    show ?thesis
    proof (cases i)
      case 0
      with Cons.prems s show ?thesis by (simp add: offsetOf_0)
    next
      case (Suc i')
      with Cons.prems s have "i' < length (js_split sep cs)" "col \<le> length (js_split sep cs ! i')"
        by auto
      from Cons.IH [OF this] show ?thesis
        unfolding s Suc offsetOf_Suc by simp
    qed
  next
    case False
    with sp have s: "js_split sep (c # cs) = (c # l) # ls" by simp
    show ?thesis
    proof (cases i)
      case 0
      show ?thesis
      proof (cases col)
        case z: 0
        have "0 < length (js_split sep cs)" "0 \<le> length (js_split sep cs ! 0)" using sp by auto
        from Cons.IH [OF this] obtain rest where "cs = l @ rest"
          using sp by (auto simp: offsetOf_0)
        then show ?thesis unfolding s 0 z offsetOf_0 by simp
      next
        case (Suc col')
        with Cons.prems s 0 have "0 < length (js_split sep cs)" "col' \<le> length (js_split sep cs ! 0)"
          using sp by auto
        from Cons.IH [OF this] show ?thesis
          unfolding s 0 Suc offsetOf_0 using sp by simp
      qed
    next
      case (Suc i')
      with Cons.prems s sp have "i < length (js_split sep cs)" "col \<le> length (js_split sep cs ! i)"
        by auto
      from Cons.IH [OF this] show ?thesis
        unfolding s Suc sp offsetOf_Suc by simp
    qed
  qed
qed

lemma removeQuotes_id: "dquote \<notin> set s \<Longrightarrow> squote \<notin> set s \<Longrightarrow> removeQuotes s = s"
  unfolding removeQuotes_def by (induction s) auto

lemma removeQuotes_filter: "removeQuotes s = filter (\<lambda>c. \<not> isQuote c) s"
  by (simp add: removeQuotes_def isQuote_def)

lemma filter_takeWhile_neg: "filter (\<lambda>c. \<not> P c) (takeWhile P s) = []"
  by (induction s) auto

lemma removeQuotes_strip:
  assumes "\<forall>c \<in> set (stripEnclosingQuotes s). c \<noteq> dquote \<and> c \<noteq> squote"
  shows "removeQuotes s = stripEnclosingQuotes s"
proof -
  let ?d = "dropWhile isQuote s"
  let ?N = "\<lambda>c. \<not> isQuote c"
  have s: "s = takeWhile isQuote s @ ?d" by simp
  have "rev (takeWhile isQuote (rev ?d) @ dropWhile isQuote (rev ?d)) = rev (rev ?d)"
    by (simp only: takeWhile_dropWhile_id)
  then have d: "?d = stripEnclosingQuotes s @ rev (takeWhile isQuote (rev ?d))"
    by (simp only: rev_append rev_rev_ident stripEnclosingQuotes_def)
  have "filter ?N s = filter ?N (takeWhile isQuote s) @ filter ?N ?d"
    by (subst s) (simp only: filter_append)
  also have "\<dots> = filter ?N ?d" by (simp add: filter_takeWhile_neg)
  also have "\<dots> = filter ?N (stripEnclosingQuotes s) @ filter ?N (rev (takeWhile isQuote (rev ?d)))"
    by (subst d) (simp only: filter_append)
  also have "\<dots> = filter ?N (stripEnclosingQuotes s)"
    by (simp add: filter_takeWhile_neg flip: rev_filter)
  also have "\<dots> = stripEnclosingQuotes s"
    using assms by (auto simp: isQuote_def intro: filter_True)
  finally show ?thesis by (simp add: removeQuotes_filter)
qed

lemma js_map_total: "\<forall>x \<in> set xs. f x = Inr (g x) \<Longrightarrow> js_map f xs = Inr (map g xs)"
  by (induction xs) auto

lemma js_split_no_sep: "l \<in> set (js_split sep s) \<Longrightarrow> sep \<notin> set l"
proof (induction s arbitrary: l)
  case Nil
  then show ?case by simp
next
  case (Cons c cs)
  obtain l0 ls where sp: "js_split sep cs = l0 # ls"
    using js_split_nonempty [of sep cs] by (cases "js_split sep cs") auto
  show ?case
  proof (cases "c = sep")
    case True
    with Cons show ?thesis by auto
  next
    case False
    with Cons.prems sp have "l = c # l0 \<or> l \<in> set ls" by simp
    then show ?thesis
    proof
      assume "l = c # l0"
      moreover have "sep \<notin> set l0" using Cons.IH [of l0] sp by simp
      ultimately show ?thesis using False by auto
    next
      assume "l \<in> set ls"
      then show ?thesis using Cons.IH [of l] sp by simp
    qed
  qed
qed

lemma js_startsWith_subset: "js_startsWith s p \<Longrightarrow> set p \<subseteq> set s"
  by (induction s p rule: js_startsWith.induct) auto

lemma js_includes_subset: "js_includes s p \<Longrightarrow> set p \<subseteq> set s"
proof (induction s)
  case Nil
  then show ?case by simp
next
  case (Cons c cs)
  from Cons.prems consider "js_startsWith (c # cs) p" | "js_includes cs p" by auto
  then show ?case
  proof cases
    case 1
    then show ?thesis by (rule js_startsWith_subset)
  next
    case 2
    with Cons.IH show ?thesis by auto
  qed
qed

lemma no_line_includes_newline:
  assumes "newline \<in> set p" and "l \<in> set (js_split newline s)"
  shows "\<not> js_includes l p"
proof
  assume "js_includes l p"
  then have "set p \<subseteq> set l" by (rule js_includes_subset)
  with assms(1) have "newline \<in> set l" by auto
  with js_split_no_sep [OF assms(2)] show False by simp
qed

lemma removeQuotes_eq_iff: "removeQuotes s = s \<longleftrightarrow> dquote \<notin> set s \<and> squote \<notin> set s"
  unfolding removeQuotes_def filter_id_conv by auto

lemma removeQuotes_length_iff:
  "length (removeQuotes s) = length s \<longleftrightarrow> dquote \<notin> set s \<and> squote \<notin> set s"
proof
  assume l: "length (removeQuotes s) = length s"
  show "dquote \<notin> set s \<and> squote \<notin> set s"
  proof (rule ccontr)
    assume "\<not> (dquote \<notin> set s \<and> squote \<notin> set s)"
    then obtain c where "c \<in> set s" "\<not> (c \<noteq> dquote \<and> c \<noteq> squote)" by auto
    then have "length (filter (\<lambda>c. c \<noteq> dquote \<and> c \<noteq> squote) s) < length s"
      by (rule length_filter_less)
    with l show False by (simp add: removeQuotes_def)
  qed
next
  assume "dquote \<notin> set s \<and> squote \<notin> set s"
  then show "length (removeQuotes s) = length s" by (simp add: removeQuotes_id)
qed

section \<open>Facts about the position mapper\<close>

lemma matchIndexToPosition_eq:
  "matchIndexToPosition content m =
     (if \<exists>l \<in> set (js_split newline content). js_includes l (group1 m)
      then Inr \<lparr>line = js_findIndex (\<lambda>l. js_includes l (group1 m)) (js_split newline content),
                colStart = js_indexOf (js_split newline content !
                              nat (js_findIndex (\<lambda>l. js_includes l (group1 m)) (js_split newline content)))
                              (group1 m),
                colEnd = js_indexOf (js_split newline content !
                              nat (js_findIndex (\<lambda>l. js_includes l (group1 m)) (js_split newline content)))
                              (group1 m) + int (length (group1 m))\<rparr>
      else Inl TypeError)"
proof -
  let ?ls = "js_split newline content"
  let ?P = "\<lambda>l. js_includes l (group1 m)"
  show ?thesis
  proof (cases "\<exists>l \<in> set ?ls. ?P l")
    case True
    then have "js_findIndex ?P ?ls \<noteq> - 1" by (simp add: js_findIndex_none)
    with js_findIndex_ge [of ?P ?ls] have "0 \<le> js_findIndex ?P ?ls" by linarith
    with js_findIndex_lt [of ?P ?ls] True show ?thesis
      by (simp add: matchIndexToPosition_def js_at_def Let_def)
  next
    case False
    then have "js_findIndex ?P ?ls = - 1" by (simp add: js_findIndex_none)
    with False show ?thesis
      by (simp add: matchIndexToPosition_def js_at_def Let_def)
  qed
qed

lemma matchIndexToPosition_found:
  assumes "\<exists>l \<in> set (js_split newline content). js_includes l (group1 m)"
  shows "\<exists>p. matchIndexToPosition content m = Inr p
           \<and> 0 \<le> line p \<and> nat (line p) < length (js_split newline content)
           \<and> js_includes (js_split newline content ! nat (line p)) (group1 m)
           \<and> (\<forall>k < nat (line p). \<not> js_includes (js_split newline content ! k) (group1 m))
           \<and> colStart p = js_indexOf (js_split newline content ! nat (line p)) (group1 m)
           \<and> 0 \<le> colStart p
           \<and> colEnd p = colStart p + int (length (group1 m))"
proof -
  let ?ls = "js_split newline content"
  let ?P = "\<lambda>l. js_includes l (group1 m)"
  let ?fi = "js_findIndex ?P ?ls"
  from assms have "?fi \<noteq> - 1" by (simp add: js_findIndex_none)
  with js_findIndex_ge [of ?P ?ls] have ge: "0 \<le> ?fi" by linarith
  from js_findIndex_first [OF ge] have first: "?P (?ls ! nat ?fi)" "\<forall>k < nat ?fi. \<not> ?P (?ls ! k)"
    by auto
  from ge js_findIndex_lt [of ?P ?ls] have lt: "nat ?fi < length ?ls" by linarith
  from first(1) have "0 \<le> js_indexOf (?ls ! nat ?fi) (group1 m)" by (simp add: js_indexOf_includes)
  with assms ge lt first show ?thesis
    unfolding matchIndexToPosition_eq by simp
qed

section \<open>Facts about Promise.all and getLinks\<close>

lemma filled_empty: "filled outcomes {} = replicate (length outcomes) None"
  by (rule nth_equalityI) (simp_all add: filled_def)

lemma filled_insert:
  "i < length outcomes \<Longrightarrow> outcomes ! i = Inr v \<Longrightarrow>
     (filled outcomes S)[i := Some v] = filled outcomes (insert i S)"
  by (rule nth_equalityI) (auto simp: filled_def nth_list_update)

lemma filled_all:
  "\<forall>i < length outcomes. outcomes ! i = Inr (vs ! i) \<Longrightarrow> length vs = length outcomes \<Longrightarrow>
     filled outcomes {..<length outcomes} = map Some vs"
  by (rule nth_equalityI) (auto simp: filled_def)

lemma filterBoolean_map_Some: "filterBoolean (map Some vs) = vs"
  by (induction vs) auto

lemma foldl_settle_Rejected: "foldl (settle outcomes) (Rejected e) sched = Rejected e"
  by (induction sched) auto

lemma foldl_settle_pending:
  assumes "distinct sched" "set sched \<subseteq> {..<length outcomes}"
    and "\<forall>i \<in> set sched. \<exists>v. outcomes ! i = Inr v"
    and "length sched < length outcomes"
  shows "foldl (settle outcomes) (Pending (replicate (length outcomes) None) (length outcomes)) sched
         = Pending (filled outcomes (set sched)) (length outcomes - length sched)"
  using assms
proof (induction sched rule: rev_induct)
  case Nil
  show ?case by (simp add: filled_empty)
next
  case (snoc x xs)
  from snoc.prems have xs: "distinct xs" "set xs \<subseteq> {..<length outcomes}"
    "\<forall>i \<in> set xs. \<exists>v. outcomes ! i = Inr v" "length xs < length outcomes" by auto
  from snoc.prems obtain v where x: "x < length outcomes" "outcomes ! x = Inr v" by auto
  from snoc.prems have rem: "length outcomes - length xs - 1 \<noteq> 0" by simp
  have "foldl (settle outcomes) (Pending (replicate (length outcomes) None) (length outcomes)) (xs @ [x])
        = settle outcomes (Pending (filled outcomes (set xs)) (length outcomes - length xs)) x"
    using snoc.IH [OF xs] by simp
  also have "\<dots> = Pending ((filled outcomes (set xs))[x := Some v]) (length outcomes - length xs - 1)"
    using x rem by simp
  also have "\<dots> = Pending (filled outcomes (set (xs @ [x]))) (length outcomes - length (xs @ [x]))"
    using filled_insert [OF x] by simp
  finally show ?case .
qed

lemma completionOrder_length: "completionOrder n sched \<Longrightarrow> length sched = n"
  unfolding completionOrder_def using distinct_card [of sched] by auto

lemma Promise_all_fulfilled:
  assumes co: "completionOrder (length outcomes) sched"
    and ok: "\<forall>i < length outcomes. outcomes ! i = Inr (vs ! i)"
    and len: "length vs = length outcomes"
  shows "Promise_all outcomes sched = Fulfilled (map Some vs)"
proof (cases sched rule: rev_cases)
  case Nil
  with co have "outcomes = []" by (auto simp: completionOrder_def dest: sym)
  with Nil len show ?thesis by (simp add: Promise_all_def)
next
  case (snoc xs x)
  from co have l: "length sched = length outcomes" by (rule completionOrder_length)
  from co snoc have xs: "distinct xs" "set xs \<subseteq> {..<length outcomes}"
    "length xs < length outcomes" "x < length outcomes"
    using l by (auto simp: completionOrder_def)
  from ok xs have okxs: "\<forall>i \<in> set xs. \<exists>v. outcomes ! i = Inr v" by auto
  from xs have ne: "outcomes \<noteq> []" by auto
  from ok xs have x: "outcomes ! x = Inr (vs ! x)" by simp
  from l snoc have rem: "length outcomes - length xs - 1 = 0" by simp
  have "Promise_all outcomes sched
        = settle outcomes (Pending (filled outcomes (set xs)) (length outcomes - length xs)) x"
    using foldl_settle_pending [OF xs(1,2) okxs xs(3)] ne snoc by (simp add: Promise_all_def)
  also have "\<dots> = Fulfilled ((filled outcomes (set xs))[x := Some (vs ! x)])"
    using xs(4) x rem by simp
  also have "\<dots> = Fulfilled (filled outcomes (set sched))"
    using filled_insert [OF xs(4) x] snoc by simp
  also have "\<dots> = Fulfilled (map Some vs)"
    using co filled_all [OF ok len] by (simp add: completionOrder_def)
  finally show ?thesis .
qed

lemma Promise_all_rejected:
  assumes co: "completionOrder (length outcomes) sched"
    and bad: "\<exists>i < length outcomes. \<exists>e. outcomes ! i = Inl e"
  shows "\<exists>i < length outcomes. \<exists>e. outcomes ! i = Inl e \<and> Promise_all outcomes sched = Rejected e"
proof -
  let ?bad = "\<lambda>i. \<exists>e. outcomes ! i = Inl e"
  from co bad have "\<exists>i \<in> set sched. ?bad i" by (auto simp: completionOrder_def)
  then obtain pre x post where sp: "sched = pre @ x # post" "?bad x" "\<forall>i \<in> set pre. \<not> ?bad i"
    using split_list_first_prop [of sched ?bad] by blast
  from sp obtain e where e: "outcomes ! x = Inl e" by auto
  from co sp have pre: "distinct pre" "set pre \<subseteq> {..<length outcomes}" "x < length outcomes"
    by (auto simp: completionOrder_def)
  from co sp have "length pre < length sched" by simp
  with co have lp: "length pre < length outcomes" by (simp add: completionOrder_length)
  have okpre: "\<forall>i \<in> set pre. \<exists>v. outcomes ! i = Inr v"
  proof
    fix i assume "i \<in> set pre"
    with sp have "\<not> ?bad i" by simp
    then show "\<exists>v. outcomes ! i = Inr v" by (cases "outcomes ! i") auto
  qed
  from pre have ne: "outcomes \<noteq> []" by auto
  have "Promise_all outcomes sched
        = foldl (settle outcomes)
            (settle outcomes (Pending (filled outcomes (set pre)) (length outcomes - length pre)) x) post"
    using foldl_settle_pending [OF pre(1,2) okpre lp] ne sp by (simp add: Promise_all_def)
  also have "\<dots> = Rejected e"
    using pre(3) e by (simp add: foldl_settle_Rejected)
  finally show ?thesis using pre(3) e by blast
qed

lemma getLinks_fulfilled:
  assumes co: "completionOrder (length (matchAll ext (fileContent options))) schedule"
    and ok: "\<forall>i < length (matchAll ext (fileContent options)).
               linkOfMatch ext options (matchAll ext (fileContent options) ! i) = Inr (vs ! i)"
    and len: "length vs = length (matchAll ext (fileContent options))"
  shows "getLinks ext schedule options = Some (Inr vs)"
proof -
  let ?outs = "map (linkOfMatch ext options) (matchAll ext (fileContent options))"
  have "Promise_all ?outs schedule = Fulfilled (map Some vs)"
    using co ok len by (intro Promise_all_fulfilled) simp_all
  then show ?thesis by (simp add: getLinks_def filterBoolean_map_Some)
qed

lemma getLinks_rejected:
  assumes co: "completionOrder (length (matchAll ext (fileContent options))) schedule"
    and i: "i < length (matchAll ext (fileContent options))"
    and bad: "linkOfMatch ext options (matchAll ext (fileContent options) ! i) = Inl e"
  shows "\<exists>j < length (matchAll ext (fileContent options)). \<exists>e'.
           linkOfMatch ext options (matchAll ext (fileContent options) ! j) = Inl e' \<and>
           getLinks ext schedule options = Some (Inl e')"
proof -
  let ?ms = "matchAll ext (fileContent options)"
  let ?outs = "map (linkOfMatch ext options) ?ms"
  have "\<exists>i < length ?outs. \<exists>e. ?outs ! i = Inl e" using i bad by auto
  moreover have "completionOrder (length ?outs) schedule" using co by simp
  ultimately obtain j e' where j: "j < length ?outs" "?outs ! j = Inl e'"
    "Promise_all ?outs schedule = Rejected e'"
    using Promise_all_rejected [of ?outs schedule] by blast
  from j(3) have "getLinks ext schedule options = Some (Inl e')" by (simp add: getLinks_def)
  with j(1,2) show ?thesis by auto
qed

lemma getLinks_cases:
  assumes co: "completionOrder (length (matchAll ext (fileContent options))) schedule"
  shows "(\<exists>vs. length vs = length (matchAll ext (fileContent options)) \<and>
            (\<forall>i < length (matchAll ext (fileContent options)).
               linkOfMatch ext options (matchAll ext (fileContent options) ! i) = Inr (vs ! i)) \<and>
            getLinks ext schedule options = Some (Inr vs))
       \<or> (\<exists>j < length (matchAll ext (fileContent options)). \<exists>e.
            linkOfMatch ext options (matchAll ext (fileContent options) ! j) = Inl e \<and>
            getLinks ext schedule options = Some (Inl e))"
proof -
  let ?ms = "matchAll ext (fileContent options)"
  let ?f = "linkOfMatch ext options"
  show ?thesis
  proof (cases "\<exists>i < length ?ms. \<exists>e. ?f (?ms ! i) = Inl e")
    case True
    then obtain i e where "i < length ?ms" "?f (?ms ! i) = Inl e" by blast
    from getLinks_rejected [OF co this] show ?thesis by blast
  next
    case False
    define vs where "vs = map (\<lambda>m. case ?f m of Inr v \<Rightarrow> v) ?ms"
    have len: "length vs = length ?ms" by (simp add: vs_def)
    have ok: "\<forall>i < length ?ms. ?f (?ms ! i) = Inr (vs ! i)"
    proof (intro allI impI)
      fix i assume i: "i < length ?ms"
      with False obtain v where "?f (?ms ! i) = Inr v" by (cases "?f (?ms ! i)") auto
      with i show "?f (?ms ! i) = Inr (vs ! i)" by (simp add: vs_def)
    qed
    from getLinks_fulfilled [OF co ok len] len ok show ?thesis by blast
  qed
qed

lemma linkOfMatch_not_found:
  "linkOfMatch ext options m = Inr l \<Longrightarrow>
     fg ext (pattern ext options m) (searchOptions ext options) = Inr [] \<Longrightarrow> templatePath l = None"
  by (auto simp: linkOfMatch_def split: sum.splits)

lemma fromViewLink_eq:
  "fromViewLink fileUri links =
     Inr (map (\<lambda>l. \<lparr>link_range = rangeOf (position l),
                     link_target = Some (fileUri (the (templatePath l)))\<rparr>)
            (filter (\<lambda>l. templatePath l \<noteq> None) links))"
  unfolding fromViewLink_def by (rule js_map_total) auto

lemma fromControllerLink_eq:
  "fromControllerLink fileUri rlinks =
     Inr (map (\<lambda>l. \<lparr>link_range = rangeOf (route_position l), link_target = None,
                     filePath = fileUri (the (controllerPath l)),
                     controller = route_controller l\<rparr>)
            (filter (\<lambda>l. controllerPath l \<noteq> None) rlinks))"
  unfolding fromControllerLink_def by (rule js_map_total) auto

lemma fileName_eq:
  "fileName m = map (\<lambda>c. if c = CHR ''.'' then CHR ''/'' else c)
                  (filter (\<lambda>c. c \<noteq> dquote \<and> c \<noteq> squote) (group1 m))"
  by (simp add: fileName_def dotsToSlashes_def removeQuotes_def)

lemma fileName_chars:
  "dquote \<notin> set (fileName m) \<and> squote \<notin> set (fileName m) \<and> CHR ''.'' \<notin> set (fileName m)"
  unfolding fileName_eq by (auto simp: dquote_def squote_def)

lemma linkOfMatch_eq:
  "linkOfMatch ext options m =
     (case fg ext (pattern ext options m) (searchOptions ext options) of
        Inl e \<Rightarrow> Inl e
      | Inr files \<Rightarrow>
          (case matchIndexToPosition (fileContent options) m of
             Inl e \<Rightarrow> Inl e
           | Inr pos \<Rightarrow>
               Inr \<lparr>templatePath = (case files of [] \<Rightarrow> None | f # _ \<Rightarrow> Some (slash ext f)),
                    position = pos\<rparr>))"
  by (simp add: linkOfMatch_def split: sum.splits list.splits)

lemma linkOfMatch_spec_resolve:
  assumes "\<forall>c \<in> set (stripEnclosingQuotes (group1 m)). c \<noteq> dquote \<and> c \<noteq> squote"
  shows "linkOfMatch ext options m =
           (case spec_resolve ext (group1 m) (path (project options)) (pagesDirectory options) ''vue'' of
              Inl e \<Rightarrow> Inl e
            | Inr target \<Rightarrow>
                (case matchIndexToPosition (fileContent options) m of
                   Inl e \<Rightarrow> Inl e
                 | Inr pos \<Rightarrow> Inr \<lparr>templatePath = target, position = pos\<rparr>))"
proof -
  have rq: "removeQuotes (group1 m) = stripEnclosingQuotes (group1 m)"
    using assms by (rule removeQuotes_strip)
  have p: "pattern ext options m =
           slash ext (path_join ext [path (project options), pagesDirectory options,
             spec_convert (group1 m) @ ''.vue''])"
    by (simp add: pattern_def fullName_def fileName_def rq spec_convert_def dotsToSlashes_def)
  show ?thesis
    unfolding linkOfMatch_def spec_resolve_def p searchOptions_def
    by (simp split: sum.splits list.splits)
qed

section \<open>The properties\<close>

subsection \<open>Order of the links\<close>

text \<open>
  C1. Whatever the order in which the searches complete, \<open>getLinks\<close> settles, and it
  returns a sequence of links exactly when the callback of every match returns one; the
  sequence then has one link for each match, the link at index \<open>i\<close> being the one
  built from the \<open>i\<close>-th match of the text.
\<close>

theorem getLinks_preserves_match_order:
  assumes "completionOrder (length (matchAll ext (fileContent options))) schedule"
  shows "(\<exists>r. getLinks ext schedule options = Some r) \<and>
         (\<forall>links. getLinks ext schedule options = Some (Inr links) \<longleftrightarrow>
            length links = length (matchAll ext (fileContent options)) \<and>
            (\<forall>i < length links.
               linkOfMatch ext options (matchAll ext (fileContent options) ! i) = Inr (links ! i)))"
proof -
  let ?ms = "matchAll ext (fileContent options)"
  let ?f = "linkOfMatch ext options"
  from getLinks_cases [OF assms] show ?thesis
  proof (elim disjE exE conjE)
    fix vs
    assume vs: "length vs = length ?ms" "\<forall>i < length ?ms. ?f (?ms ! i) = Inr (vs ! i)"
      "getLinks ext schedule options = Some (Inr vs)"
    have "vs = links \<longleftrightarrow>
            length links = length ?ms \<and> (\<forall>i < length links. ?f (?ms ! i) = Inr (links ! i))"
      for links
    proof
      assume "vs = links"
      with vs show "length links = length ?ms \<and> (\<forall>i < length links. ?f (?ms ! i) = Inr (links ! i))"
        by simp
    next
      assume r: "length links = length ?ms \<and> (\<forall>i < length links. ?f (?ms ! i) = Inr (links ! i))"
      show "vs = links"
      proof (rule nth_equalityI)
        show "length vs = length links" using r vs by simp
      next
        fix i assume "i < length vs"
        with r vs have "Inr (links ! i) = (Inr (vs ! i) :: error + InertiaLink)" by metis
        then show "vs ! i = links ! i" by simp
      qed
    qed
    with vs(3) show ?thesis by simp
  next
    fix j e
    assume j: "j < length ?ms" "?f (?ms ! j) = Inl e" "getLinks ext schedule options = Some (Inl e)"
    have "\<not> (length links = length ?ms \<and> (\<forall>i < length links. ?f (?ms ! i) = Inr (links ! i)))"
      for links
      using j(1,2) by auto
    with j(3) show ?thesis by simp
  qed
qed

text \<open>
  The second search completes first; the links still come in the order of the matches.
\<close>

theorem getLinks_preserves_match_order_witness:
  "completionOrder (length (matchAll fixture (fileContent (options_for text_two ''pages'')))) [1, 0]
   \<and> getLinks fixture [1, 0] (options_for text_two ''pages'') = Some (Inr [link_show, link_missing])"
proof -
  let ?o = "options_for text_two ''pages''"
  have co: "completionOrder (length (matchAll fixture (fileContent ?o))) [1, 0]"
    by (auto simp: completionOrder_def fixture_defs)
  have "length [link_show, link_missing] = length (matchAll fixture (fileContent ?o))
        \<and> (\<forall>i < length [link_show, link_missing].
              linkOfMatch fixture ?o (matchAll fixture (fileContent ?o) ! i)
              = Inr ([link_show, link_missing] ! i))"
  proof (intro conjI allI impI)
    show "length [link_show, link_missing] = length (matchAll fixture (fileContent ?o))"
      by (simp add: fixture_defs)
  next
    fix i assume "i < length [link_show, link_missing]"
    then consider "i = 0" | "i = 1" by fastforce
    then show "linkOfMatch fixture ?o (matchAll fixture (fileContent ?o) ! i)
                 = Inr ([link_show, link_missing] ! i)"
      by cases (simp_all add: fixture_defs linker_defs)
  qed
  with getLinks_preserves_match_order [OF co] co show ?thesis by blast
qed

subsection \<open>Position of a reference that occurs once\<close>

text \<open>
  C2, as stated, has the columns span the normalised capture. The mapper works on
  \<open>match[1]\<close> as it is: for a capture that carries its quotes and occurs once, the
  columns are 7 and 19, the slice keeps the quotes and is 12 wide, while the normalised
  capture is 10 long. And a capture that occurs once and runs over a newline gets no
  position at all.
  
\<close>

theorem normalized_capture_counterexample:
  "occurrences text_two (group1 m_show_quoted) = 1
   \<and> matchIndexToPosition text_two m_show_quoted = Inr \<lparr>line = 0, colStart = 7, colEnd = 19\<rparr>
   \<and> slice (js_split newline text_two ! 0) 7 19 = [squote] @ ''users.show'' @ [squote]
   \<and> removeQuotes (group1 m_show_quoted) = ''users.show''
   \<and> length (removeQuotes (group1 m_show_quoted)) = 10
   \<and> occurrences text_wrapped (group1 m_wrapped) = 1
   \<and> matchIndexToPosition text_wrapped m_wrapped = Inl TypeError"
  by (simp add: fixture_defs m_show_quoted_def text_wrapped_def m_wrapped_def occurrences_def
      matchIndexToPosition_def js_at_def slice_def removeQuotes_def)

text \<open>
  C2, amended. For a reference string that occurs exactly once in the text, the mapper
  returns a position exactly when the capture holds no newline. That position lies in
  the text at the one place where the capture occurs; the located line, cut from
  \<open>colStart\<close> to \<open>colEnd\<close>, is the capture as matched, and
  \<open>colEnd - colStart\<close> is its length. Slice and width are those of the normalised
  capture exactly when the capture holds no quote character.
  
\<close>

theorem position_spans_raw_capture:
  assumes once: "occurrences content (group1 m) = 1"
  shows "((\<exists>p. matchIndexToPosition content m = Inr p) \<longleftrightarrow> newline \<notin> set (group1 m))
       \<and> (\<forall>p. matchIndexToPosition content m = Inr p \<longrightarrow>
             0 \<le> line p \<and> nat (line p) < length (js_split newline content) \<and> 0 \<le> colStart p
             \<and> slice (js_split newline content ! nat (line p)) (colStart p) (colEnd p) = group1 m
             \<and> colEnd p - colStart p = int (length (group1 m))
             \<and> (\<forall>k \<le> length content. js_startsWith (drop k content) (group1 m) \<longleftrightarrow>
                   k = offsetOf (js_split newline content) (nat (line p)) (nat (colStart p)))
             \<and> (slice (js_split newline content ! nat (line p)) (colStart p) (colEnd p)
                   = removeQuotes (group1 m)
                 \<longleftrightarrow> dquote \<notin> set (group1 m) \<and> squote \<notin> set (group1 m))
             \<and> (colEnd p - colStart p = int (length (removeQuotes (group1 m)))
                 \<longleftrightarrow> dquote \<notin> set (group1 m) \<and> squote \<notin> set (group1 m)))"
proof (intro conjI allI impI)
  let ?ls = "js_split newline content"
  let ?c = "group1 m"
  show "(\<exists>p. matchIndexToPosition content m = Inr p) \<longleftrightarrow> newline \<notin> set ?c"
  proof
    assume "\<exists>p. matchIndexToPosition content m = Inr p"
    then have "\<exists>l \<in> set ?ls. js_includes l ?c"
      unfolding matchIndexToPosition_eq by (simp split: if_splits)
    then show "newline \<notin> set ?c" using no_line_includes_newline by blast
  next
    assume oneline: "newline \<notin> set ?c"
    from once have "js_includes content ?c" by (simp add: occurrences_includes)
    with oneline have "\<exists>l \<in> set ?ls. js_includes l ?c" by (rule js_includes_piece)
    from matchIndexToPosition_found [OF this] show "\<exists>p. matchIndexToPosition content m = Inr p"
      by blast
  qed
next
  fix p
  assume ret: "matchIndexToPosition content m = Inr p"
  let ?ls = "js_split newline content"
  let ?c = "group1 m"
  from ret have "\<exists>l \<in> set ?ls. js_includes l ?c"
    unfolding matchIndexToPosition_eq by (simp split: if_splits)
  from matchIndexToPosition_found [OF this] ret have
    p: "0 \<le> line p" "nat (line p) < length ?ls"
       "js_includes (?ls ! nat (line p)) ?c"
       "colStart p = js_indexOf (?ls ! nat (line p)) ?c" "0 \<le> colStart p"
       "colEnd p = colStart p + int (length ?c)"
    by auto
  let ?l = "?ls ! nat (line p)"
  let ?off = "offsetOf ?ls (nat (line p)) (nat (colStart p))"
  have sl: "slice ?l (colStart p) (colEnd p) = ?c"
    using js_indexOf_slice [OF p(3)] p(4,6) by simp
  have at: "js_startsWith (drop (nat (colStart p)) ?l) ?c"
    using js_indexOf_at [of ?l ?c] p(4,5) by simp
  have "nat (colStart p) \<le> length ?l" using js_indexOf_le [of ?l ?c] p(4) by simp
  from drop_offsetOf [OF p(2) this] obtain rest where
    off: "?off \<le> length content" "drop ?off content = drop (nat (colStart p)) ?l @ rest"
    by blast
  from at off(2) have here: "js_startsWith (drop ?off content) ?c"
    by (simp add: js_startsWith_append)
  show "0 \<le> line p" by (rule p(1))
  show "nat (line p) < length ?ls" by (rule p(2))
  show "0 \<le> colStart p" by (rule p(5))
  show "slice ?l (colStart p) (colEnd p) = ?c" by (rule sl)
  show "colEnd p - colStart p = int (length ?c)" using p(6) by simp
  show "js_startsWith (drop k content) ?c \<longleftrightarrow> k = ?off" if "k \<le> length content" for k
    using occurrences_unique [OF once that _ off(1) here] here by blast
  show "slice ?l (colStart p) (colEnd p) = removeQuotes ?c
          \<longleftrightarrow> dquote \<notin> set ?c \<and> squote \<notin> set ?c"
    unfolding sl using removeQuotes_eq_iff [of ?c] by auto
  show "colEnd p - colStart p = int (length (removeQuotes ?c))
          \<longleftrightarrow> dquote \<notin> set ?c \<and> squote \<notin> set ?c"
    using p(6) removeQuotes_length_iff [of ?c] by auto
qed

theorem position_spans_raw_capture_witness:
  "occurrences text_two (group1 m_show) = 1
   \<and> matchIndexToPosition text_two m_show = Inr \<lparr>line = 0, colStart = 8, colEnd = 18\<rparr>
   \<and> slice (js_split newline text_two ! 0) 8 18 = ''users.show''
   \<and> offsetOf (js_split newline text_two) 0 8 = 8"
proof -
  have h: "occurrences text_two (group1 m_show) = 1" by (simp add: fixture_defs occurrences_def)
  have v: "matchIndexToPosition text_two m_show = Inr \<lparr>line = 0, colStart = 8, colEnd = 18\<rparr>"
    by (simp add: fixture_defs matchIndexToPosition_def js_at_def)
  from position_spans_raw_capture [OF h] v
  have "slice (js_split newline text_two ! nat (line \<lparr>line = 0, colStart = 8, colEnd = 18\<rparr>))
          (colStart \<lparr>line = 0, colStart = 8, colEnd = 18\<rparr>)
          (colEnd \<lparr>line = 0, colStart = 8, colEnd = 18\<rparr>) = group1 m_show"
    by blast
  then have "slice (js_split newline text_two ! 0) 8 18 = ''users.show''"
    by (simp add: m_show_def)
  moreover have "offsetOf (js_split newline text_two) 0 8 = 8" by (simp add: offsetOf_def)
  ultimately show ?thesis using h v by simp
qed

subsection \<open>A capture that stands on two lines\<close>

text \<open>
  C3. The mapper splits the text at the newlines and gives a match the first line that
  includes its capture: when the same capture stands on the lines \<open>i < j\<close>, the
  match of either line gets one and the same position, on a line not after \<open>i\<close>, that
  includes the capture and has no line including it before, with the column of the first
  occurrence in that line.
\<close>

theorem position_is_first_containing_line:
  assumes "i < j" and "j < length (js_split newline content)"
    and "js_includes (js_split newline content ! i) (group1 m1)"
    and "js_includes (js_split newline content ! j) (group1 m2)"
    and "group1 m1 = group1 m2"
  shows "\<exists>p. matchIndexToPosition content m1 = Inr p \<and> matchIndexToPosition content m2 = Inr p
           \<and> 0 \<le> line p \<and> nat (line p) \<le> i \<and> nat (line p) < j
           \<and> js_includes (js_split newline content ! nat (line p)) (group1 m1)
           \<and> (\<forall>k < nat (line p). \<not> js_includes (js_split newline content ! k) (group1 m1))
           \<and> colStart p = js_indexOf (js_split newline content ! nat (line p)) (group1 m1)
           \<and> colEnd p = colStart p + int (length (group1 m1))"
proof -
  let ?ls = "js_split newline content"
  from assms have "?ls ! i \<in> set ?ls" by simp
  with assms(3) have ex: "\<exists>l \<in> set ?ls. js_includes l (group1 m1)" by blast
  from matchIndexToPosition_found [OF ex] obtain p where
    p: "matchIndexToPosition content m1 = Inr p" "0 \<le> line p"
       "js_includes (?ls ! nat (line p)) (group1 m1)"
       "\<forall>k < nat (line p). \<not> js_includes (?ls ! k) (group1 m1)"
       "colStart p = js_indexOf (?ls ! nat (line p)) (group1 m1)"
       "colEnd p = colStart p + int (length (group1 m1))"
    by blast
  have same: "matchIndexToPosition content m2 = matchIndexToPosition content m1"
    by (simp only: matchIndexToPosition_def assms(5))
  have le: "nat (line p) \<le> i"
  proof (rule ccontr)
    assume "\<not> nat (line p) \<le> i"
    then have "i < nat (line p)" by simp
    with p(4) assms(3) show False by blast
  qed
  with assms(1) have "nat (line p) < j" by simp
  with p same le show ?thesis by simp
qed

theorem position_is_first_containing_line_witness:
  "(0::nat) < 1 \<and> 1 < length (js_split newline text_twice)
   \<and> js_includes (js_split newline text_twice ! 0) (group1 m_show)
   \<and> js_includes (js_split newline text_twice ! 1) (group1 m_show_again)
   \<and> group1 m_show = group1 m_show_again
   \<and> matchIndexToPosition text_twice m_show = Inr \<lparr>line = 0, colStart = 8, colEnd = 18\<rparr>
   \<and> matchIndexToPosition text_twice m_show_again = Inr \<lparr>line = 0, colStart = 8, colEnd = 18\<rparr>"
proof -
  have h1: "(0::nat) < 1" by simp
  have h2: "1 < length (js_split newline text_twice)" by (simp add: fixture_defs)
  have h3: "js_includes (js_split newline text_twice ! 0) (group1 m_show)" by (simp add: fixture_defs)
  have h4: "js_includes (js_split newline text_twice ! 1) (group1 m_show_again)" by (simp add: fixture_defs)
  have h5: "group1 m_show = group1 m_show_again" by (simp add: fixture_defs)
  from position_is_first_containing_line [OF h1 h2 h3 h4 h5] obtain p where
    p: "matchIndexToPosition text_twice m_show = Inr p"
       "matchIndexToPosition text_twice m_show_again = Inr p"
    by blast
  have "matchIndexToPosition text_twice m_show = Inr \<lparr>line = 0, colStart = 8, colEnd = 18\<rparr>"
    by (simp add: fixture_defs matchIndexToPosition_def js_at_def)
  with p have "matchIndexToPosition text_twice m_show = Inr \<lparr>line = 0, colStart = 8, colEnd = 18\<rparr>"
    "matchIndexToPosition text_twice m_show_again = Inr \<lparr>line = 0, colStart = 8, colEnd = 18\<rparr>"
    by simp_all
  with h1 h2 h3 h4 h5 show ?thesis by simp
qed

subsection \<open>Resolution of a view reference\<close>

text \<open>
  C4, as stated, lets the extension of the template be a setting of the project and
  strips the enclosing quotes only. With the extension \<open>edge\<close> and the file
  \<open>views/welcome.edge\<close> on disk, the specification's resolution finds the file; the
  linker searches for \<open>views/welcome.vue\<close> and returns an absent target. And for a
  capture with a quote inside, the specification's resolution keeps the quote and finds
  nothing; the linker drops it and finds \<open>pages/users/Show.vue\<close>.
  
\<close>

theorem configurable_extension_counterexample:
  "spec_resolve fixture (group1 m_welcome) ''/proj'' ''views'' ''edge''
     = Inr (Some ''/proj/views/welcome.edge'')
   \<and> pattern fixture (options_for line_welcome ''views'') m_welcome = ''/proj/views/welcome.vue''
   \<and> linkOfMatch fixture (options_for line_welcome ''views'') m_welcome
     = Inr \<lparr>templatePath = None, position = \<lparr>line = 0, colStart = 8, colEnd = 15\<rparr>\<rparr>
   \<and> spec_convert (group1 m_inner) = ''users'' @ [squote] @ ''/show''
   \<and> spec_resolve fixture (group1 m_inner) ''/proj'' ''pages'' ''vue'' = Inr None
   \<and> fileName m_inner = ''users/show''
   \<and> linkOfMatch fixture (options_for line_inner ''pages'') m_inner
     = Inr \<lparr>templatePath = Some ''/proj/pages/users/Show.vue'',
            position = \<lparr>line = 0, colStart = 8, colEnd = 19\<rparr>\<rparr>"
  by (simp add: fixture_defs linker_defs spec_resolve_def spec_convert_def stripEnclosingQuotes_def
      isQuote_def m_inner_def line_inner_def)

text \<open>
  C4, amended. The linker removes every quote character of the capture and replaces
  every dot with a slash, so that the file name holds neither; it searches for the
  pattern joined from project root, base directory and that file name with the fixed
  extension \<open>vue\<close>, files only, without regard to case, from the project root; and
  its target is the first entry of the search, passed through \<open>slash\<close>, or absent
  when the search finds nothing. For a capture whose quote characters are all enclosing
  ones this is the specification's resolution at the extension \<open>vue\<close>.
  
\<close>

theorem view_resolution_uses_vue_extension:
  "fileName m = map (\<lambda>c. if c = CHR ''.'' then CHR ''/'' else c)
                  (filter (\<lambda>c. c \<noteq> dquote \<and> c \<noteq> squote) (group1 m))
   \<and> dquote \<notin> set (fileName m) \<and> squote \<notin> set (fileName m) \<and> CHR ''.'' \<notin> set (fileName m)
   \<and> pattern ext options m =
       slash ext (path_join ext [path (project options), pagesDirectory options,
                                 fileName m @ ''.vue''])
   \<and> searchOptions ext options =
       \<lparr>onlyFiles = True, caseSensitiveMatch = False, cwd = slash ext (path (project options))\<rparr>
   \<and> linkOfMatch ext options m =
       (case fg ext (pattern ext options m) (searchOptions ext options) of
          Inl e \<Rightarrow> Inl e
        | Inr files \<Rightarrow>
            (case matchIndexToPosition (fileContent options) m of
               Inl e \<Rightarrow> Inl e
             | Inr pos \<Rightarrow>
                 Inr \<lparr>templatePath = (case files of [] \<Rightarrow> None | f # _ \<Rightarrow> Some (slash ext f)),
                      position = pos\<rparr>))
   \<and> ((\<forall>c \<in> set (stripEnclosingQuotes (group1 m)). c \<noteq> dquote \<and> c \<noteq> squote) \<longrightarrow>
        linkOfMatch ext options m =
          (case spec_resolve ext (group1 m) (path (project options)) (pagesDirectory options) ''vue'' of
             Inl e \<Rightarrow> Inl e
           | Inr target \<Rightarrow>
               (case matchIndexToPosition (fileContent options) m of
                  Inl e \<Rightarrow> Inl e
                | Inr pos \<Rightarrow> Inr \<lparr>templatePath = target, position = pos\<rparr>)))"
proof (intro conjI impI)
  show "fileName m = map (\<lambda>c. if c = CHR ''.'' then CHR ''/'' else c)
                       (filter (\<lambda>c. c \<noteq> dquote \<and> c \<noteq> squote) (group1 m))"
    by (rule fileName_eq)
  show "dquote \<notin> set (fileName m)" "squote \<notin> set (fileName m)" "CHR ''.'' \<notin> set (fileName m)"
    using fileName_chars [of m] by simp_all
  show "pattern ext options m =
          slash ext (path_join ext [path (project options), pagesDirectory options,
                                    fileName m @ ''.vue''])"
    by (simp add: pattern_def fullName_def)
  show "searchOptions ext options =
          \<lparr>onlyFiles = True, caseSensitiveMatch = False, cwd = slash ext (path (project options))\<rparr>"
    by (simp add: searchOptions_def)
  show "linkOfMatch ext options m =
       (case fg ext (pattern ext options m) (searchOptions ext options) of
          Inl e \<Rightarrow> Inl e
        | Inr files \<Rightarrow>
            (case matchIndexToPosition (fileContent options) m of
               Inl e \<Rightarrow> Inl e
             | Inr pos \<Rightarrow>
                 Inr \<lparr>templatePath = (case files of [] \<Rightarrow> None | f # _ \<Rightarrow> Some (slash ext f)),
                      position = pos\<rparr>))"
    by (rule linkOfMatch_eq)
next
  assume "\<forall>c \<in> set (stripEnclosingQuotes (group1 m)). c \<noteq> dquote \<and> c \<noteq> squote"
  then show "linkOfMatch ext options m =
          (case spec_resolve ext (group1 m) (path (project options)) (pagesDirectory options) ''vue'' of
             Inl e \<Rightarrow> Inl e
           | Inr target \<Rightarrow>
               (case matchIndexToPosition (fileContent options) m of
                  Inl e \<Rightarrow> Inl e
                | Inr pos \<Rightarrow> Inr \<lparr>templatePath = target, position = pos\<rparr>))"
    by (rule linkOfMatch_spec_resolve)
qed

text \<open>
  A reference with two dots gives a path with two slashes, and the reference
  \<open>users.show\<close> resolves to \<open>pages/users/Show.vue\<close>, the first of the two
  files that match without regard to case.
  
\<close>

theorem view_resolution_uses_vue_extension_witness:
  "fileName m_nested = ''admin/users/index''
   \<and> stripEnclosingQuotes (group1 m_show) = ''users.show''
   \<and> spec_resolve fixture (group1 m_show) ''/proj'' ''pages'' ''vue''
       = Inr (Some ''/proj/pages/users/Show.vue'')
   \<and> linkOfMatch fixture (options_for text_two ''pages'') m_show = Inr link_show"
proof -
  let ?o = "options_for text_two ''pages''"
  have q: "stripEnclosingQuotes (group1 m_show) = ''users.show''"
    by (simp add: fixture_defs stripEnclosingQuotes_def isQuote_def)
  then have h: "\<forall>c \<in> set (stripEnclosingQuotes (group1 m_show)). c \<noteq> dquote \<and> c \<noteq> squote"
    by (simp add: fixture_defs)
  have s: "spec_resolve fixture (group1 m_show) (path (project ?o)) (pagesDirectory ?o) ''vue''
             = Inr (Some ''/proj/pages/users/Show.vue'')"
    by (simp add: fixture_defs spec_resolve_def spec_convert_def stripEnclosingQuotes_def isQuote_def)
  have p: "matchIndexToPosition (fileContent ?o) m_show = Inr \<lparr>line = 0, colStart = 8, colEnd = 18\<rparr>"
    by (simp add: fixture_defs matchIndexToPosition_def js_at_def)
  from view_resolution_uses_vue_extension [of m_show fixture ?o] h
  have "linkOfMatch fixture ?o m_show =
          (case spec_resolve fixture (group1 m_show) (path (project ?o)) (pagesDirectory ?o) ''vue'' of
             Inl e \<Rightarrow> Inl e
           | Inr target \<Rightarrow>
               (case matchIndexToPosition (fileContent ?o) m_show of
                  Inl e \<Rightarrow> Inl e
                | Inr pos \<Rightarrow> Inr \<lparr>templatePath = target, position = pos\<rparr>))"
    by blast
  then have l: "linkOfMatch fixture ?o m_show = Inr link_show"
    unfolding s p by (simp add: link_show_def)
  from view_resolution_uses_vue_extension [of m_nested fixture ?o]
  have "fileName m_nested = map (\<lambda>c. if c = CHR ''.'' then CHR ''/'' else c)
                  (filter (\<lambda>c. c \<noteq> dquote \<and> c \<noteq> squote) (group1 m_nested))"
    by blast
  then have f: "fileName m_nested = ''admin/users/index''"
    by (simp add: m_nested_def dquote_def squote_def)
  from s have "spec_resolve fixture (group1 m_show) ''/proj'' ''pages'' ''vue''
       = Inr (Some ''/proj/pages/users/Show.vue'')"
    by (simp add: options_for_def)
  with f q l show ?thesis by simp
qed

subsection \<open>A reference to no file\<close>

text \<open>
  C5, as stated, has the resolution of a reference to no file never throw. For a
  capture that runs over a newline the search finds nothing, and the callback throws
  all the same, when it computes the position; \<open>getLinks\<close> rejects.
  
\<close>

theorem not_found_throws_counterexample:
  "fg fixture (pattern fixture (options_for text_broken ''pages'') m_broken)
      (searchOptions fixture (options_for text_broken ''pages'')) = Inr []
   \<and> linkOfMatch fixture (options_for text_broken ''pages'') m_broken = Inl TypeError
   \<and> getLinks fixture [0] (options_for text_broken ''pages'') = Some (Inl TypeError)"
  by (simp add: fixture_defs linker_defs)

text \<open>
  C5, amended. When the search for the pattern of a match finds no file, the callback
  returns a link whose target is absent exactly when some line of the text includes the
  capture; when no line does, it throws the \<open>TypeError\<close> of the position mapper.
  Finding no file raises nothing by itself.
  
\<close>

theorem not_found_gives_absent_target:
  assumes "fg ext (pattern ext options m) (searchOptions ext options) = Inr []"
  shows "((\<exists>pos. matchIndexToPosition (fileContent options) m = Inr pos \<and>
             linkOfMatch ext options m = Inr \<lparr>templatePath = None, position = pos\<rparr>)
          \<longleftrightarrow> (\<exists>l \<in> set (js_split newline (fileContent options)). js_includes l (group1 m)))
       \<and> (linkOfMatch ext options m = Inl TypeError
          \<longleftrightarrow> (\<forall>l \<in> set (js_split newline (fileContent options)). \<not> js_includes l (group1 m)))"
proof (cases "\<exists>l \<in> set (js_split newline (fileContent options)). js_includes l (group1 m)")
  case True
  from matchIndexToPosition_found [OF True] obtain pos where
    "matchIndexToPosition (fileContent options) m = Inr pos" by blast
  with assms True show ?thesis by (auto simp: linkOfMatch_def)
next
  case False
  then have "matchIndexToPosition (fileContent options) m = Inl TypeError"
    unfolding matchIndexToPosition_eq by simp
  with assms False show ?thesis by (auto simp: linkOfMatch_def)
qed

theorem not_found_gives_absent_target_witness:
  "fg fixture (pattern fixture (options_for text_two ''pages'') m_missing)
      (searchOptions fixture (options_for text_two ''pages'')) = Inr []
   \<and> (\<exists>l \<in> set (js_split newline (fileContent (options_for text_two ''pages''))).
         js_includes l (group1 m_missing))
   \<and> linkOfMatch fixture (options_for text_two ''pages'') m_missing = Inr link_missing"
proof -
  let ?o = "options_for text_two ''pages''"
  have h1: "fg fixture (pattern fixture ?o m_missing) (searchOptions fixture ?o) = Inr []"
    by (simp add: fixture_defs linker_defs)
  have h2: "\<exists>l \<in> set (js_split newline (fileContent ?o)). js_includes l (group1 m_missing)"
    by (simp add: fixture_defs)
  from not_found_gives_absent_target [OF h1] h2 obtain pos where
    p: "matchIndexToPosition (fileContent ?o) m_missing = Inr pos"
       "linkOfMatch fixture ?o m_missing = Inr \<lparr>templatePath = None, position = pos\<rparr>"
    by blast
  have "matchIndexToPosition (fileContent ?o) m_missing = Inr \<lparr>line = 1, colStart = 8, colEnd = 20\<rparr>"
    by (simp add: fixture_defs matchIndexToPosition_def js_at_def)
  with p have "linkOfMatch fixture ?o m_missing = Inr link_missing" by (simp add: link_missing_def)
  with h1 h2 show ?thesis by simp
qed

subsection \<open>A failing search\<close>

text \<open>
  C6, as stated, keeps the links of the other matches when one search fails. Here the
  first two matches resolve and the search of the third is refused; although the third
  settles last, \<open>getLinks\<close> rejects and returns no link.
\<close>

theorem sibling_links_discarded_counterexample:
  "linkOfMatch fixture (options_for text_three ''pages'') m_show = Inr link_show
   \<and> linkOfMatch fixture (options_for text_three ''pages'') m_missing = Inr link_missing
   \<and> linkOfMatch fixture (options_for text_three ''pages'') m_locked = Inl (SearchFailure ''EACCES'')
   \<and> getLinks fixture [0, 1, 2] (options_for text_three ''pages'')
       = Some (Inl (SearchFailure ''EACCES''))"
  by (simp add: fixture_defs linker_defs)

text \<open>
  C6, amended. When the search fails for one match of a batch, \<open>getLinks\<close> rejects,
  whatever the order of completion, with the failure of one of the failing matches; no
  sequence of links is returned.
\<close>

theorem search_failure_rejects_getLinks:
  assumes "completionOrder (length (matchAll ext (fileContent options))) schedule"
    and "i < length (matchAll ext (fileContent options))"
    and "fg ext (pattern ext options (matchAll ext (fileContent options) ! i))
           (searchOptions ext options) = Inl e"
  shows "\<exists>j < length (matchAll ext (fileContent options)). \<exists>e'.
           linkOfMatch ext options (matchAll ext (fileContent options) ! j) = Inl e' \<and>
           getLinks ext schedule options = Some (Inl e')"
proof -
  from assms(3) have "linkOfMatch ext options (matchAll ext (fileContent options) ! i) = Inl e"
    by (simp add: linkOfMatch_def)
  from getLinks_rejected [OF assms(1,2) this] show ?thesis .
qed

theorem search_failure_rejects_getLinks_witness:
  "completionOrder (length (matchAll fixture (fileContent (options_for text_three ''pages'')))) [2, 0, 1]
   \<and> 2 < length (matchAll fixture (fileContent (options_for text_three ''pages'')))
   \<and> fg fixture (pattern fixture (options_for text_three ''pages'')
         (matchAll fixture (fileContent (options_for text_three ''pages'')) ! 2))
         (searchOptions fixture (options_for text_three ''pages'')) = Inl (SearchFailure ''EACCES'')
   \<and> getLinks fixture [2, 0, 1] (options_for text_three ''pages'')
       = Some (Inl (SearchFailure ''EACCES''))"
proof -
  let ?o = "options_for text_three ''pages''"
  have h1: "completionOrder (length (matchAll fixture (fileContent ?o))) [2, 0, 1]"
    by (auto simp: completionOrder_def fixture_defs)
  have h2: "2 < length (matchAll fixture (fileContent ?o))" by (simp add: fixture_defs)
  have h3: "fg fixture (pattern fixture ?o (matchAll fixture (fileContent ?o) ! 2))
              (searchOptions fixture ?o) = Inl (SearchFailure ''EACCES'')"
    by (simp add: fixture_defs linker_defs)
  from search_failure_rejects_getLinks [OF h1 h2 h3] obtain e' where
    e: "getLinks fixture [2, 0, 1] ?o = Some (Inl e')" by blast
  have "getLinks fixture [2, 0, 1] ?o = Some (Inl (SearchFailure ''EACCES''))"
    by (simp add: fixture_defs linker_defs)
  with e h1 h2 h3 show ?thesis by simp
qed

subsection \<open>A capture on no line\<close>

text \<open>
  C7, as stated, has the mapper return a null or degenerate position when no line
  includes the capture. A capture that runs over a newline occurs in the text and on no
  line of it; the mapper throws.
\<close>

theorem position_mapper_throws_counterexample:
  "js_includes text_broken (group1 m_broken)
   \<and> matchIndexToPosition text_broken m_broken = Inl TypeError"
  by (simp add: fixture_defs matchIndexToPosition_def js_at_def)

text \<open>
  C7, amended. The mapper throws a \<open>TypeError\<close> exactly when no line of the text
  includes the capture, and returns a position exactly when some line does.
\<close>

theorem position_throws_iff_no_line:
  "(matchIndexToPosition content m = Inl TypeError \<longleftrightarrow>
      (\<forall>l \<in> set (js_split newline content). \<not> js_includes l (group1 m)))
   \<and> ((\<exists>p. matchIndexToPosition content m = Inr p) \<longleftrightarrow>
      (\<exists>l \<in> set (js_split newline content). js_includes l (group1 m)))"
  unfolding matchIndexToPosition_eq by simp

theorem position_throws_iff_no_line_witness:
  "js_split newline text_two = [line_show, line_missing]
   \<and> \<not> js_includes line_show (group1 m_locked)
   \<and> \<not> js_includes line_missing (group1 m_locked)
   \<and> matchIndexToPosition text_two m_locked = Inl TypeError"
proof -
  have s: "js_split newline text_two = [line_show, line_missing]" by (simp add: fixture_defs)
  have n: "\<not> js_includes line_show (group1 m_locked)" "\<not> js_includes line_missing (group1 m_locked)"
    by (simp_all add: fixture_defs)
  from s n have h: "\<forall>l \<in> set (js_split newline text_two). \<not> js_includes l (group1 m_locked)"
    by simp
  with position_throws_iff_no_line [of text_two m_locked]
  have "matchIndexToPosition text_two m_locked = Inl TypeError" by simp
  with s n show ?thesis by simp
qed

subsection \<open>Unresolved links are kept\<close>

text \<open>
  C8. A sequence returned by \<open>getLinks\<close> has one link for each match, the link of
  a match whose search found nothing having an absent target; the factory keeps exactly
  the links whose path is present, in their order, for view links and for controller
  links alike.
\<close>

theorem assembler_keeps_unresolved_links:
  assumes co: "completionOrder (length (matchAll ext (fileContent options))) schedule"
    and ret: "getLinks ext schedule options = Some (Inr links)"
  shows "length links = length (matchAll ext (fileContent options))
       \<and> (\<forall>i < length links.
            fg ext (pattern ext options (matchAll ext (fileContent options) ! i))
              (searchOptions ext options) = Inr [] \<longrightarrow> templatePath (links ! i) = None)
       \<and> fromViewLink fileUri links =
            Inr (map (\<lambda>l. \<lparr>link_range = rangeOf (position l),
                            link_target = Some (fileUri (the (templatePath l)))\<rparr>)
                   (filter (\<lambda>l. templatePath l \<noteq> None) links))
       \<and> fromControllerLink fileUri rlinks =
            Inr (map (\<lambda>l. \<lparr>link_range = rangeOf (route_position l), link_target = None,
                            filePath = fileUri (the (controllerPath l)),
                            controller = route_controller l\<rparr>)
                   (filter (\<lambda>l. controllerPath l \<noteq> None) rlinks))"
proof -
  let ?ms = "matchAll ext (fileContent options)"
  from getLinks_cases [OF co] ret obtain vs where
    vs: "length vs = length ?ms" "\<forall>i < length ?ms. linkOfMatch ext options (?ms ! i) = Inr (vs ! i)"
        "getLinks ext schedule options = Some (Inr vs)"
    by auto
  with ret have eq: "links = vs" by simp
  have "\<forall>i < length links.
          fg ext (pattern ext options (?ms ! i)) (searchOptions ext options) = Inr [] \<longrightarrow>
          templatePath (links ! i) = None"
    using vs(1,2) eq by (auto dest: linkOfMatch_not_found)
  with vs(1) eq show ?thesis
    by (simp add: fromViewLink_eq fromControllerLink_eq)
qed

theorem assembler_keeps_unresolved_links_witness:
  "completionOrder (length (matchAll fixture (fileContent (options_for text_two ''pages'')))) [0, 1]
   \<and> getLinks fixture [0, 1] (options_for text_two ''pages'') = Some (Inr [link_show, link_missing])
   \<and> templatePath ([link_show, link_missing] ! 1) = None
   \<and> fromViewLink (\<lambda>p. ''file://'' @ p) [link_show, link_missing]
       = Inr [\<lparr>link_range = \<lparr>range_start = \<lparr>pos_line = 0, pos_character = 8\<rparr>,
                              range_end = \<lparr>pos_line = 0, pos_character = 18\<rparr>\<rparr>,
               link_target = Some ''file:///proj/pages/users/Show.vue''\<rparr>]"
proof -
  let ?o = "options_for text_two ''pages''"
  let ?L = "[link_show, link_missing]"
  have h1: "completionOrder (length (matchAll fixture (fileContent ?o))) [0, 1]"
    by (auto simp: completionOrder_def fixture_defs)
  have h2: "getLinks fixture [0, 1] ?o = Some (Inr ?L)"
    by (simp add: fixture_defs linker_defs)
  from assembler_keeps_unresolved_links [OF h1 h2, of "\<lambda>p. ''file://'' @ p" "[]"]
  have "fromViewLink (\<lambda>p. ''file://'' @ p) ?L =
          Inr (map (\<lambda>l. \<lparr>link_range = rangeOf (position l),
                          link_target = Some (''file://'' @ the (templatePath l))\<rparr>)
                 (filter (\<lambda>l. templatePath l \<noteq> None) ?L))"
    by blast
  then have "fromViewLink (\<lambda>p. ''file://'' @ p) ?L
       = Inr [\<lparr>link_range = \<lparr>range_start = \<lparr>pos_line = 0, pos_character = 8\<rparr>,
                              range_end = \<lparr>pos_line = 0, pos_character = 18\<rparr>\<rparr>,
               link_target = Some ''file:///proj/pages/users/Show.vue''\<rparr>]"
    by (simp add: link_show_def link_missing_def rangeOf_def)
  moreover have "templatePath (?L ! 1) = None" by (simp add: link_missing_def)
  ultimately show ?thesis using h1 h2 by simp
qed

subsection \<open>Running twice\<close>

text \<open>
  C9. Two runs on the same text, project, directory and file system, each with its own
  order of completion: one returns a sequence of links exactly when the other returns
  the same sequence, and one rejects exactly when the other does.
\<close>

theorem getLinks_idempotent:
  assumes s1: "completionOrder (length (matchAll ext (fileContent options))) schedule1"
    and s2: "completionOrder (length (matchAll ext (fileContent options))) schedule2"
  shows "(getLinks ext schedule1 options = Some (Inr links) \<longleftrightarrow>
          getLinks ext schedule2 options = Some (Inr links))
       \<and> ((\<exists>e. getLinks ext schedule1 options = Some (Inl e)) \<longleftrightarrow>
          (\<exists>e. getLinks ext schedule2 options = Some (Inl e)))"
proof -
  let ?ms = "matchAll ext (fileContent options)"
  let ?f = "linkOfMatch ext options"
  from getLinks_cases [OF s1] show ?thesis
  proof (elim disjE exE conjE)
    fix vs
    assume vs: "length vs = length ?ms" "\<forall>i < length ?ms. ?f (?ms ! i) = Inr (vs ! i)"
      "getLinks ext schedule1 options = Some (Inr vs)"
    from getLinks_fulfilled [OF s2 vs(2,1)] vs(3) show ?thesis by simp
  next
    fix j e
    assume j: "j < length ?ms" "?f (?ms ! j) = Inl e" "getLinks ext schedule1 options = Some (Inl e)"
    from getLinks_rejected [OF s2 j(1,2)] obtain e' where
      "getLinks ext schedule2 options = Some (Inl e')" by blast
    with j(3) show ?thesis by simp
  qed
qed

theorem getLinks_idempotent_witness:
  "completionOrder (length (matchAll fixture (fileContent (options_for text_two ''pages'')))) [0, 1]
   \<and> completionOrder (length (matchAll fixture (fileContent (options_for text_two ''pages'')))) [1, 0]
   \<and> getLinks fixture [0, 1] (options_for text_two ''pages'') = Some (Inr [link_show, link_missing])
   \<and> getLinks fixture [1, 0] (options_for text_two ''pages'') = Some (Inr [link_show, link_missing])"
proof -
  let ?o = "options_for text_two ''pages''"
  have h1: "completionOrder (length (matchAll fixture (fileContent ?o))) [0, 1]"
    by (auto simp: completionOrder_def fixture_defs)
  have h2: "completionOrder (length (matchAll fixture (fileContent ?o))) [1, 0]"
    by (auto simp: completionOrder_def fixture_defs)
  have a: "getLinks fixture [0, 1] ?o = Some (Inr [link_show, link_missing])"
    by (simp add: fixture_defs linker_defs)
  with getLinks_idempotent [OF h1 h2, of "[link_show, link_missing]"]
  have "getLinks fixture [1, 0] ?o = Some (Inr [link_show, link_missing])" by simp
  with a h1 h2 show ?thesis by simp
qed

subsection \<open>The path of a found file\<close>

text \<open>
  C10. When the search returns at least one entry, and the capture stands on a line of
  the text, the target of the link is the first entry as the search enumerated it,
  passed through \<open>slash\<close>, whatever the pattern that was searched for.
\<close>

theorem found_target_is_enumerated_path:
  assumes "fg ext (pattern ext options m) (searchOptions ext options) = Inr (f # fs)"
    and "\<exists>l \<in> set (js_split newline (fileContent options)). js_includes l (group1 m)"
  shows "\<exists>pos. matchIndexToPosition (fileContent options) m = Inr pos \<and>
           linkOfMatch ext options m = Inr \<lparr>templatePath = Some (slash ext f), position = pos\<rparr>"
proof -
  from matchIndexToPosition_found [OF assms(2)] obtain pos where
    "matchIndexToPosition (fileContent options) m = Inr pos" by blast
  with assms(1) show ?thesis by (simp add: linkOfMatch_def)
qed

text \<open>
  The pattern is \<open>/proj/pages/users/show.vue\<close>; the target is the file as it is
  written on disk, \<open>/proj/pages/users/Show.vue\<close>.
\<close>

theorem found_target_is_enumerated_path_witness:
  "fg fixture (pattern fixture (options_for text_two ''pages'') m_show)
      (searchOptions fixture (options_for text_two ''pages''))
     = Inr [''/proj/pages/users/Show.vue'', ''/proj/pages/Users/show.vue'']
   \<and> (\<exists>l \<in> set (js_split newline (fileContent (options_for text_two ''pages''))).
         js_includes l (group1 m_show))
   \<and> pattern fixture (options_for text_two ''pages'') m_show = ''/proj/pages/users/show.vue''
   \<and> linkOfMatch fixture (options_for text_two ''pages'') m_show = Inr link_show"
proof -
  let ?o = "options_for text_two ''pages''"
  have h1: "fg fixture (pattern fixture ?o m_show) (searchOptions fixture ?o)
              = Inr [''/proj/pages/users/Show.vue'', ''/proj/pages/Users/show.vue'']"
    by (simp add: fixture_defs linker_defs)
  have h2: "\<exists>l \<in> set (js_split newline (fileContent ?o)). js_includes l (group1 m_show)"
    by (simp add: fixture_defs)
  have h3: "pattern fixture ?o m_show = ''/proj/pages/users/show.vue''"
    by (simp add: fixture_defs linker_defs)
  from found_target_is_enumerated_path [OF h1 h2] obtain pos where
    p: "matchIndexToPosition (fileContent ?o) m_show = Inr pos"
       "linkOfMatch fixture ?o m_show
          = Inr \<lparr>templatePath = Some (slash fixture ''/proj/pages/users/Show.vue''), position = pos\<rparr>"
    by blast
  have "matchIndexToPosition (fileContent ?o) m_show = Inr \<lparr>line = 0, colStart = 8, colEnd = 18\<rparr>"
    by (simp add: fixture_defs matchIndexToPosition_def js_at_def)
  moreover have "slash fixture ''/proj/pages/users/Show.vue'' = ''/proj/pages/users/Show.vue''"
    by (simp add: fixture_defs)
  ultimately have "linkOfMatch fixture ?o m_show = Inr link_show"
    using p by (simp add: link_show_def)
  with h1 h2 h3 show ?thesis by simp
qed

end
